theory Spec2Isabelle
  imports Main
begin

section \<open>MutexQueue: a bounded queue protected by one mutex\<close>

text \<open>
  The class \<^verbatim>\<open>MutexQueue<T, kMaxSize>\<close> has the fields \<^verbatim>\<open>queue_\<close> (a
  \<^verbatim>\<open>std::queue<T>\<close>), \<^verbatim>\<open>mutex_\<close>, \<^verbatim>\<open>alert_for_exit_\<close> and the two condition
  variables \<^verbatim>\<open>not_empty_notifier_\<close> and \<^verbatim>\<open>not_full_notifier_\<close>.

  Every member function takes \<^verbatim>\<open>mutex_\<close> on entry and holds it until it returns or
  suspends inside \<^verbatim>\<open>wait\<close>, so each call is one atomic transition of the state below
  and the mutex itself carries no further information. The queue is a list with the
  front at the head. A condition variable is the list of the threads that are suspended
  on it; \<^verbatim>\<open>notify_all\<close> empties that list. The template parameter \<^verbatim>\<open>kMaxSize\<close> is
  the first argument of every function that reads it; the class asserts statically that
  it is positive. A field \<^verbatim>\<open>name_\<close> of the class is the record field \<open>name_m\<close>.
\<close>

type_synonym tid = nat

record 'a MutexQueue =
  queue_m :: "'a list"
  alert_for_exit_m :: bool
  not_empty_notifier_m :: "tid list"
  not_full_notifier_m :: "tid list"

definition MutexQueue_init :: "'a MutexQueue" where
  "MutexQueue_init =
     \<lparr>queue_m = [], alert_for_exit_m = False, not_empty_notifier_m = [], not_full_notifier_m = []\<rparr>"

text \<open>
  A call that reaches \<^verbatim>\<open>wait(lock, pred)\<close> with a false predicate suspends the calling
  thread on the condition variable. When the thread is notified it evaluates the
  predicate again under the lock, which is what a fresh call of the same member function
  does, since nothing but the lock acquisition precedes the wait.
\<close>

datatype ('r, 's) outcome = Suspended 's | Returned 'r 's

definition is_full :: "nat \<Rightarrow> 'a MutexQueue \<Rightarrow> bool" where
  "is_full kMaxSize s = (length (queue_m s) \<ge> kMaxSize)"

definition is_empty :: "'a MutexQueue \<Rightarrow> bool" where
  "is_empty s = (queue_m s = [])"

definition size_mq :: "'a MutexQueue \<Rightarrow> nat" where
  "size_mq s = length (queue_m s)"

definition empty_mq :: "'a MutexQueue \<Rightarrow> nat" where
  "empty_mq s = length (queue_m s)"

text \<open>The contextual conversion of a \<^verbatim>\<open>size_t\<close> to \<^verbatim>\<open>bool\<close>.\<close>

definition to_bool :: "nat \<Rightarrow> bool" where
  "to_bool n = (n \<noteq> 0)"

definition emplace_wait_if_full ::
    "nat \<Rightarrow> tid \<Rightarrow> 'a \<Rightarrow> 'a MutexQueue \<Rightarrow> (bool, 'a MutexQueue) outcome" where
  "emplace_wait_if_full kMaxSize t x s =
     (if \<not> (\<not> is_full kMaxSize s \<or> alert_for_exit_m s)
      then Suspended (s\<lparr>not_full_notifier_m := List.insert t (not_full_notifier_m s)\<rparr>)
      else if \<not> is_full kMaxSize s
        then Returned True (s\<lparr>queue_m := queue_m s @ [x], not_empty_notifier_m := []\<rparr>)
        else Returned False s)"

text \<open>
  The loop \<^verbatim>\<open>while (is_full()) queue_.pop();\<close>. Calling \<^verbatim>\<open>pop\<close> on an empty
  \<^verbatim>\<open>std::queue\<close> is undefined behaviour; the model returns \<open>None\<close> there.
\<close>

function pop_while_full :: "nat \<Rightarrow> 'a MutexQueue \<Rightarrow> 'a MutexQueue option" where
  "pop_while_full kMaxSize s =
     (if is_full kMaxSize s
      then (if queue_m s = [] then None
            else pop_while_full kMaxSize (s\<lparr>queue_m := tl (queue_m s)\<rparr>))
      else Some s)"
  by pat_completeness auto
termination
  by (relation "measure (\<lambda>(k, s). length (queue_m s))") auto

declare pop_while_full.simps [simp del]

definition emplace_overwrite_oldest ::
    "nat \<Rightarrow> 'a \<Rightarrow> 'a MutexQueue \<Rightarrow> 'a MutexQueue option" where
  "emplace_overwrite_oldest kMaxSize x s =
     (case pop_while_full kMaxSize s of
        None \<Rightarrow> None
      | Some s' \<Rightarrow> Some (s'\<lparr>queue_m := queue_m s' @ [x], not_empty_notifier_m := []\<rparr>))"

text \<open>
  The destination \<^verbatim>\<open>T *value\<close> of the two pop functions is \<open>None\<close> for a null pointer
  and \<open>Some v\<close> for a pointer to an object that holds \<open>v\<close>. A pop returns its boolean
  result together with the destination after the call.
\<close>

definition pop_if_not_empty ::
    "'a option \<Rightarrow> 'a MutexQueue \<Rightarrow> (bool \<times> 'a option) \<times> 'a MutexQueue" where
  "pop_if_not_empty val s =
     (if is_empty s then ((False, val), s)
      else ((True, (case val of None \<Rightarrow> None | Some _ \<Rightarrow> Some (hd (queue_m s)))),
            s\<lparr>queue_m := tl (queue_m s), not_full_notifier_m := []\<rparr>))"

definition pop_wait_if_empty ::
    "tid \<Rightarrow> 'a option \<Rightarrow> 'a MutexQueue \<Rightarrow> (bool \<times> 'a option, 'a MutexQueue) outcome" where
  "pop_wait_if_empty t val s =
     (if \<not> (\<not> is_empty s \<or> alert_for_exit_m s)
      then Suspended (s\<lparr>not_empty_notifier_m := List.insert t (not_empty_notifier_m s)\<rparr>)
      else if \<not> is_empty s
        then Returned (True, (case val of None \<Rightarrow> None | Some _ \<Rightarrow> Some (hd (queue_m s))))
               (s\<lparr>queue_m := tl (queue_m s), not_full_notifier_m := []\<rparr>)
        else Returned (False, val) s)"

definition is_alert :: "'a MutexQueue \<Rightarrow> bool" where
  "is_alert s = alert_for_exit_m s"

definition alert_for_exit :: "'a MutexQueue \<Rightarrow> 'a MutexQueue" where
  "alert_for_exit s = s\<lparr>alert_for_exit_m := True, not_empty_notifier_m := []\<rparr>"

section \<open>Sequences of calls on one queue\<close>

text \<open>
  A run of a program that shares one queue between threads is, because of the mutex, a
  sequence of calls, each made by some thread and each atomic. A call that suspends
  leaves the queue as it was apart from registering the waiter; the re-evaluation of the
  wait predicate after a notification is a later entry of the sequence.
\<close>

datatype 'a call =
    Emplace_wait_if_full 'a
  | Emplace_overwrite_oldest 'a
  | Pop_if_not_empty "'a option"
  | Pop_wait_if_empty "'a option"
  | Alert_for_exit

datatype 'a response = Waits | Pushed bool | Popped bool "'a option" | Done

fun step ::
    "nat \<Rightarrow> tid \<times> 'a call \<Rightarrow> 'a MutexQueue \<Rightarrow> ('a response \<times> 'a MutexQueue) option" where
  "step kMaxSize (t, Emplace_wait_if_full x) s =
     (case emplace_wait_if_full kMaxSize t x s of
        Suspended s' \<Rightarrow> Some (Waits, s')
      | Returned b s' \<Rightarrow> Some (Pushed b, s'))"
| "step kMaxSize (t, Emplace_overwrite_oldest x) s =
     (case emplace_overwrite_oldest kMaxSize x s of
        None \<Rightarrow> None
      | Some s' \<Rightarrow> Some (Done, s'))"
| "step kMaxSize (t, Pop_if_not_empty val) s =
     (case pop_if_not_empty val s of ((b, val'), s') \<Rightarrow> Some (Popped b val', s'))"
| "step kMaxSize (t, Pop_wait_if_empty val) s =
     (case pop_wait_if_empty t val s of
        Suspended s' \<Rightarrow> Some (Waits, s')
      | Returned (b, val') s' \<Rightarrow> Some (Popped b val', s'))"
| "step kMaxSize (t, Alert_for_exit) s = Some (Done, alert_for_exit s)"

fun run ::
    "nat \<Rightarrow> (tid \<times> 'a call) list \<Rightarrow> 'a MutexQueue
      \<Rightarrow> ('a response list \<times> 'a MutexQueue) option" where
  "run kMaxSize [] s = Some ([], s)"
| "run kMaxSize (c # cs) s =
     (case step kMaxSize c s of
        None \<Rightarrow> None
      | Some (r, s') \<Rightarrow>
          (case run kMaxSize cs s' of
             None \<Rightarrow> None
           | Some (rs, s'') \<Rightarrow> Some (r # rs, s'')))"

text \<open>
  The items whose blocking push returned \<^verbatim>\<open>true\<close>, and the items that successful
  pops stored through their destination pointer, both in the order of the calls.
\<close>

fun pushed_items :: "(tid \<times> 'a call) list \<Rightarrow> 'a response list \<Rightarrow> 'a list" where
  "pushed_items ((t, Emplace_wait_if_full x) # cs) (Pushed True # rs) =
     x # pushed_items cs rs"
| "pushed_items (c # cs) (r # rs) = pushed_items cs rs"
| "pushed_items _ _ = []"

fun popped_items :: "'a response list \<Rightarrow> 'a list" where
  "popped_items (Popped True (Some y) # rs) = y # popped_items rs"
| "popped_items (r # rs) = popped_items rs"
| "popped_items [] = []"

fun is_overwrite :: "'a call \<Rightarrow> bool" where
  "is_overwrite (Emplace_overwrite_oldest x) = True"
| "is_overwrite _ = False"

fun null_destination :: "'a call \<Rightarrow> bool" where
  "null_destination (Pop_if_not_empty None) = True"
| "null_destination (Pop_wait_if_empty None) = True"
| "null_destination _ = False"

fun is_push :: "'a call \<Rightarrow> bool" where
  "is_push (Emplace_wait_if_full x) = True"
| "is_push (Emplace_overwrite_oldest x) = True"
| "is_push _ = False"

section \<open>ThreadPool\<close>

text \<open>
  The queue of the pool holds \<^verbatim>\<open>std::packaged_task<void()>\<close> objects. One that
  \<^verbatim>\<open>enqueue\<close> builds wraps the lambda that owns the inner
  \<^verbatim>\<open>std::packaged_task<ReturnType()>\<close>; it is \<open>Task h fn\<close>, where \<open>h\<close> is the address
  of the inner task's shared state (the one the returned \<^verbatim>\<open>std::future\<close> refers to)
  and \<open>fn\<close> is what the call of \<^verbatim>\<open>std::bind(fn, args...)\<close> does: \<open>Inl e\<close> when it
  throws \<open>e\<close>, \<open>Inr v\<close> when it returns \<open>v\<close>. A default-constructed task, such as the
  local variable of the worker loop before the pop, is \<open>NoState\<close>.

  The behaviour of the standard library types is taken from the C++ standard:
  invoking a \<^verbatim>\<open>packaged_task\<close> stores the value or the exception of its callable in
  the shared state; invoking one without state throws \<^verbatim>\<open>std::future_error\<close>;
  destroying one that was never invoked stores \<^verbatim>\<open>broken_promise\<close>;
  \<^verbatim>\<open>future::get\<close> waits until the state is ready and returns the value or rethrows
  the stored exception.

  Besides the three fields of the class, the record holds \<open>shared_states\<close>, the part of
  the heap where the shared states of the handed-out futures live, by address, and
  \<open>destroyed\<close>, which is true once the destructor of the pool has returned.
\<close>

datatype ('e, 'r) packaged_task = NoState | Task nat "'e + 'r"

datatype ('e, 'r) shared_state = NotReady | HasValue 'r | HasException 'e | BrokenPromise

datatype thread_state = Running | Exited | Aborted

record ('e, 'r) ThreadPool =
  thread_pool_m :: "thread_state list"
  task_queue_m :: "('e, 'r) packaged_task MutexQueue"
  max_thread_number_m :: nat
  shared_states :: "nat \<Rightarrow> ('e, 'r) shared_state option"
  destroyed :: bool

text \<open>The capacity of \<^verbatim>\<open>task_queue_\<close>, the second template argument of its type.\<close>

definition task_queue_kMaxSize :: nat where
  "task_queue_kMaxSize = 128"

definition ThreadPool_init :: "nat \<Rightarrow> ('e, 'r) ThreadPool" where
  "ThreadPool_init max_thread_number =
     \<lparr>thread_pool_m = replicate max_thread_number Running,
      task_queue_m = MutexQueue_init,
      max_thread_number_m = max_thread_number,
      shared_states = (\<lambda>h. None),
      destroyed = False\<rparr>"

text \<open>
  \<^verbatim>\<open>task()\<close> in the worker loop. The outer task runs the lambda, which invokes the
  inner task; the inner task catches what the bound function throws. \<open>None\<close> is the
  exception that leaves the loop when the task has no state.
\<close>

fun invoke ::
    "('e, 'r) packaged_task \<Rightarrow> (nat \<Rightarrow> ('e, 'r) shared_state option)
      \<Rightarrow> (nat \<Rightarrow> ('e, 'r) shared_state option) option" where
  "invoke NoState sh = None"
| "invoke (Task h (Inl e)) sh = Some (sh(h \<mapsto> HasException e))"
| "invoke (Task h (Inr v)) sh = Some (sh(h \<mapsto> HasValue v))"

text \<open>
  One iteration of the \<^verbatim>\<open>while (true)\<close> loop of \<^verbatim>\<open>thread_task\<close>, run by the worker
  at index \<open>w\<close> of \<^verbatim>\<open>thread_pool_\<close>. A worker that has left the loop does nothing.
  The call \<^verbatim>\<open>task()\<close> runs after the pop has released the mutex; it writes the shared
  state of its own task and nothing of the queue, so the iteration is one step.
\<close>

definition thread_task :: "nat \<Rightarrow> ('e, 'r) ThreadPool \<Rightarrow> ('e, 'r) ThreadPool" where
  "thread_task w p =
     (if w < length (thread_pool_m p) \<and> thread_pool_m p ! w = Running
      then (case pop_wait_if_empty w (Some NoState) (task_queue_m p) of
              Suspended q \<Rightarrow> p\<lparr>task_queue_m := q\<rparr>
            | Returned (b, val) q \<Rightarrow>
                (if \<not> b
                 then p\<lparr>task_queue_m := q, thread_pool_m := (thread_pool_m p)[w := Exited]\<rparr>
                 else (case invoke (case val of None \<Rightarrow> NoState | Some task \<Rightarrow> task)
                              (shared_states p) of
                         None \<Rightarrow>
                           p\<lparr>task_queue_m := q,
                             thread_pool_m := (thread_pool_m p)[w := Aborted]\<rparr>
                       | Some sh \<Rightarrow> p\<lparr>task_queue_m := q, shared_states := sh\<rparr>)))
      else p)"

text \<open>
  \<^verbatim>\<open>enqueue\<close>, called by thread \<open>t\<close>; \<open>h\<close> is the address of the shared state that
  \<^verbatim>\<open>make_unique\<close> allocates. The result of \<^verbatim>\<open>emplace_wait_if_full\<close> is ignored: when
  it is \<^verbatim>\<open>false\<close> the lambda, and with it the task that was never invoked, is destroyed
  at the end of the statement.
\<close>

definition enqueue ::
    "tid \<Rightarrow> nat \<Rightarrow> 'e + 'r \<Rightarrow> ('e, 'r) ThreadPool \<Rightarrow> (nat, ('e, 'r) ThreadPool) outcome" where
  "enqueue t h fn p =
     (case emplace_wait_if_full task_queue_kMaxSize t (Task h fn) (task_queue_m p) of
        Suspended q \<Rightarrow>
          Suspended (p\<lparr>task_queue_m := q, shared_states := (shared_states p)(h \<mapsto> NotReady)\<rparr>)
      | Returned b q \<Rightarrow>
          Returned h
            (p\<lparr>task_queue_m := q,
               shared_states :=
                 (shared_states p)(h \<mapsto> (if b then NotReady else BrokenPromise))\<rparr>))"

text \<open>
  The destructor of a task that sits in the queue: the lambda goes, and with it the inner
  task, which abandons its shared state. A state that is not ready yet is made ready
  with \<^verbatim>\<open>broken_promise\<close>.
\<close>

fun abandon ::
    "('e, 'r) packaged_task \<Rightarrow> (nat \<Rightarrow> ('e, 'r) shared_state option)
      \<Rightarrow> (nat \<Rightarrow> ('e, 'r) shared_state option)" where
  "abandon NoState sh = sh"
| "abandon (Task h fn) sh =
     (case sh h of Some NotReady \<Rightarrow> sh(h \<mapsto> BrokenPromise) | _ \<Rightarrow> sh)"

text \<open>
  The destructor: \<^verbatim>\<open>task_queue_.alert_for_exit()\<close>, then \<^verbatim>\<open>t.join()\<close> for every
  worker, then the destruction of the members. A join returns when the worker has left
  its loop, so the destructor is suspended for as long as a worker has not; like a wait,
  it is resumed by calling it again (the alert is idempotent). Once every worker has
  exited, \<^verbatim>\<open>task_queue_\<close> is destroyed with the tasks still in it, each of which
  abandons its shared state, and then \<^verbatim>\<open>thread_pool_\<close>. A worker that an exception
  brought down never counts as exited: the process has ended with it.
\<close>

definition ThreadPool_dtor ::
    "('e, 'r) ThreadPool \<Rightarrow> (unit, ('e, 'r) ThreadPool) outcome" where
  "ThreadPool_dtor p =
     (let q = alert_for_exit (task_queue_m p)
      in if list_all (\<lambda>st. st = Exited) (thread_pool_m p)
         then Returned ()
                (p\<lparr>task_queue_m := q\<lparr>queue_m := []\<rparr>,
                   thread_pool_m := [],
                   shared_states := fold abandon (queue_m q) (shared_states p),
                   destroyed := True\<rparr>)
         else Suspended (p\<lparr>task_queue_m := q\<rparr>))"



text \<open>
  The atomic steps that threads take on one pool, and a sequence of them. A call on a
  pool whose destructor has returned has undefined behaviour; a sequence takes no step
  there.
\<close>

datatype ('e, 'r) pool_call = Enqueue tid nat "'e + 'r" | Thread_task nat | Dtor

definition pool_step ::
    "('e, 'r) pool_call \<Rightarrow> ('e, 'r) ThreadPool \<Rightarrow> ('e, 'r) ThreadPool" where
  "pool_step c p =
     (if destroyed p then p
      else (case c of
              Enqueue t h fn \<Rightarrow>
                (case enqueue t h fn p of Suspended p' \<Rightarrow> p' | Returned _ p' \<Rightarrow> p')
            | Thread_task w \<Rightarrow> thread_task w p
            | Dtor \<Rightarrow>
                (case ThreadPool_dtor p of Suspended p' \<Rightarrow> p' | Returned _ p' \<Rightarrow> p')))"

fun pool_run :: "('e, 'r) pool_call list \<Rightarrow> ('e, 'r) ThreadPool \<Rightarrow> ('e, 'r) ThreadPool" where
  "pool_run [] p = p"
| "pool_run (c # cs) p = pool_run cs (pool_step c p)"


definition pool_inv :: "('e, 'r) ThreadPool \<Rightarrow> bool" where
  "pool_inv p =
     (length (queue_m (task_queue_m p)) \<le> task_queue_kMaxSize \<and>
      NoState \<notin> set (queue_m (task_queue_m p)) \<and>
      Aborted \<notin> set (thread_pool_m p))"



section \<open>Basic facts about the queue operations\<close>

lemma pop_while_full_Some:
  "0 < k \<Longrightarrow> \<exists>s'. pop_while_full k s = Some s'"
proof (induction k s rule: pop_while_full.induct)
  case (1 k s)
  show ?case
  proof (cases "is_full k s")
    case True
    with "1.prems" have ne: "queue_m s \<noteq> []" by (auto simp: is_full_def)
    from "1.IH" [OF True ne "1.prems"] True ne show ?thesis
      by (subst pop_while_full.simps) simp
  next
    case False
    then show ?thesis by (subst pop_while_full.simps) simp
  qed
qed

lemma pop_while_full_result:
  "pop_while_full k s = Some s' \<Longrightarrow>
     s' = s\<lparr>queue_m := drop (Suc (length (queue_m s)) - k) (queue_m s)\<rparr> \<and> 0 < k"
proof (induction k s rule: pop_while_full.induct)
  case (1 k s)
  show ?case
  proof (cases "is_full k s")
    case True
    with "1.prems" have ne: "queue_m s \<noteq> []"
      by (subst (asm) pop_while_full.simps) (auto split: if_splits)
    from "1.prems" True ne
    have rec: "pop_while_full k (s\<lparr>queue_m := tl (queue_m s)\<rparr>) = Some s'"
      by (subst (asm) pop_while_full.simps) simp
    from "1.IH" [OF True ne rec] True ne show ?thesis
      by (cases "queue_m s") (auto simp: is_full_def Suc_diff_le drop_Suc)
  next
    case False
    with "1.prems" have "s' = s" by (subst (asm) pop_while_full.simps) simp
    with False show ?thesis by (auto simp: is_full_def)
  qed
qed

lemma emplace_overwrite_oldest_eq:
  "0 < k \<Longrightarrow>
   emplace_overwrite_oldest k x s =
     Some (s\<lparr>queue_m := drop (Suc (length (queue_m s)) - k) (queue_m s) @ [x],
             not_empty_notifier_m := []\<rparr>)"
  using pop_while_full_Some [of k s] pop_while_full_result [of k s]
  by (auto simp: emplace_overwrite_oldest_def)

lemmas queue_ops =
  emplace_wait_if_full_def pop_if_not_empty_def pop_wait_if_empty_def alert_for_exit_def
  is_full_def is_empty_def

lemma step_total:
  "0 < k \<Longrightarrow> \<exists>r s'. step k c s = Some (r, s')"
  by (cases c; cases "snd c")
     (auto simp: emplace_overwrite_oldest_eq split: outcome.splits prod.splits)

lemma step_alert:
  "step k c s = Some (r, s') \<Longrightarrow> alert_for_exit_m s \<Longrightarrow> alert_for_exit_m s'"
  apply (cases c; cases "snd c")
  apply (auto simp: queue_ops emplace_overwrite_oldest_def
        split: outcome.splits prod.splits if_splits option.splits dest!: pop_while_full_result)
  done

lemma run_alert:
  "run k cs s = Some (rs, s') \<Longrightarrow> alert_for_exit_m s \<Longrightarrow> alert_for_exit_m s'"
proof (induction cs arbitrary: s rs)
  case Nil
  then show ?case by simp
next
  case (Cons c cs)
  then show ?case
    by (auto split: option.splits prod.splits dest: step_alert)
qed

lemma step_length:
  "step k c s = Some (r, s') \<Longrightarrow> length (queue_m s) \<le> k \<Longrightarrow> length (queue_m s') \<le> k"
  apply (cases c; cases "snd c")
  apply (auto simp: queue_ops emplace_overwrite_oldest_def
        split: outcome.splits prod.splits if_splits option.splits dest!: pop_while_full_result)
  done

lemma run_length:
  "0 < k \<Longrightarrow> length (queue_m s) \<le> k \<Longrightarrow>
   \<exists>rs s'. run k cs s = Some (rs, s') \<and> length (queue_m s') \<le> k"
proof (induction cs arbitrary: s)
  case Nil
  then show ?case by simp
next
  case (Cons c cs)
  from step_total [OF Cons.prems(1), of c s]
  obtain r s1 where st: "step k c s = Some (r, s1)" by blast
  from step_length [OF st Cons.prems(2)] have "length (queue_m s1) \<le> k" .
  from Cons.IH [OF Cons.prems(1) this]
  obtain rs s2 where "run k cs s1 = Some (rs, s2)" "length (queue_m s2) \<le> k" by blast
  with st show ?case by simp
qed

section \<open>Observers\<close>

text \<open>
  C4. The observer \<^verbatim>\<open>empty()\<close> returns the same number as \<^verbatim>\<open>size()\<close>, the current
  element count; read as a boolean it is true exactly when the queue holds an element.
\<close>

theorem empty_returns_size:
  "empty_mq s = size_mq s \<and> empty_mq s = length (queue_m s) \<and>
   to_bool (empty_mq s) = (queue_m s \<noteq> [])"
  by (simp add: empty_mq_def size_mq_def to_bool_def)

section \<open>Pops with a null destination\<close>

text \<open>
  C9. Both pop functions take a null destination: when the queue holds an element, the
  head is removed, nothing is stored (the destination stays null) and the call returns
  \<^verbatim>\<open>true\<close>.
\<close>

theorem pop_null_destination:
  assumes "queue_m s \<noteq> []"
  shows "pop_if_not_empty None s =
           ((True, None), s\<lparr>queue_m := tl (queue_m s), not_full_notifier_m := []\<rparr>) \<and>
         pop_wait_if_empty t None s =
           Returned (True, None) (s\<lparr>queue_m := tl (queue_m s), not_full_notifier_m := []\<rparr>)"
  using assms by (simp add: queue_ops)

theorem pop_null_destination_witness:
  "pop_if_not_empty None (MutexQueue_init\<lparr>queue_m := [10::nat, 20]\<rparr>) =
     ((True, None), MutexQueue_init\<lparr>queue_m := [20]\<rparr>) \<and>
   pop_wait_if_empty 1 None (MutexQueue_init\<lparr>queue_m := [10::nat, 20]\<rparr>) =
     Returned (True, None) (MutexQueue_init\<lparr>queue_m := [20]\<rparr>)"
proof -
  have ne: "queue_m (MutexQueue_init\<lparr>queue_m := [10::nat, 20]\<rparr>) \<noteq> []" by simp
  show ?thesis
    using pop_null_destination [OF ne, of 1] by (simp add: MutexQueue_init_def)
qed

section \<open>The capacity bound\<close>

text \<open>
  C5. Every sequence of calls (blocking and overwriting pushes, both pops, the alert) on
  an empty queue runs to its end, and the element count of the queue it leaves lies
  between zero and \<^verbatim>\<open>kMaxSize\<close>. Every state that a run passes through is the final
  state of a shorter run, so the bound holds at each of them.
\<close>

theorem capacity_invariant:
  assumes "0 < kMaxSize"
  shows "\<exists>rs s. run kMaxSize cs MutexQueue_init = Some (rs, s) \<and>
           0 \<le> int (size_mq s) \<and> size_mq s \<le> kMaxSize"
  using run_length [OF assms, of MutexQueue_init cs]
  by (auto simp: MutexQueue_init_def size_mq_def)

theorem capacity_invariant_witness:
  "run 1 [(1, Emplace_overwrite_oldest (10::nat)), (1, Emplace_overwrite_oldest 20),
          (2, Emplace_wait_if_full 30), (3, Pop_if_not_empty (Some 0)),
          (2, Emplace_wait_if_full 30), (3, Alert_for_exit)] MutexQueue_init =
     Some ([Done, Done, Waits, Popped True (Some 20), Pushed True, Done],
           \<lparr>queue_m = [30], alert_for_exit_m = True, not_empty_notifier_m = [],
              not_full_notifier_m = []\<rparr>) \<and>
   size_mq \<lparr>queue_m = [30::nat], alert_for_exit_m = True, not_empty_notifier_m = [],
              not_full_notifier_m = []\<rparr> \<le> 1"
proof -
  have pos: "0 < (1::nat)" by simp
  show ?thesis
    using capacity_invariant [OF pos, of "[(1, Emplace_overwrite_oldest (10::nat)),
          (1, Emplace_overwrite_oldest 20),
          (2, Emplace_wait_if_full 30), (3, Pop_if_not_empty (Some 0)),
          (2, Emplace_wait_if_full 30), (3, Alert_for_exit)]"]
    by (simp add: queue_ops emplace_overwrite_oldest_eq MutexQueue_init_def size_mq_def)
qed

section \<open>The blocking push after the alert\<close>

text \<open>
  C1, as the code has it. The claim that every blocking push after the alert fails is
  false: on an alerted queue with room the push appends the item and returns
  \<^verbatim>\<open>true\<close>.
\<close>

theorem emplace_after_alert_counterexample:
  "emplace_wait_if_full 1 0 (7::nat) (alert_for_exit MutexQueue_init) =
     Returned True
       \<lparr>queue_m = [7], alert_for_exit_m = True, not_empty_notifier_m = [],
          not_full_notifier_m = []\<rparr>"
  by (simp add: queue_ops MutexQueue_init_def)

text \<open>
  C1, amended. Once \<^verbatim>\<open>alert_for_exit\<close> has been called, whatever calls follow it, a
  call of \<^verbatim>\<open>emplace_wait_if_full\<close> never suspends: it returns \<^verbatim>\<open>false\<close> and leaves
  the queue as it is when the queue is full, and appends the item and returns
  \<^verbatim>\<open>true\<close> when it is not.
\<close>

theorem emplace_wait_if_full_after_alert:
  assumes "run kMaxSize cs (alert_for_exit s0) = Some (rs, s)"
  shows "emplace_wait_if_full kMaxSize t x s =
           (if is_full kMaxSize s then Returned False s
            else Returned True (s\<lparr>queue_m := queue_m s @ [x], not_empty_notifier_m := []\<rparr>))"
proof -
  have "alert_for_exit_m (alert_for_exit s0)" by (simp add: alert_for_exit_def)
  from run_alert [OF assms this] show ?thesis
    by (simp add: emplace_wait_if_full_def)
qed

theorem emplace_wait_if_full_after_alert_witness:
  "run 1 [(1, Emplace_wait_if_full (5::nat))] (alert_for_exit MutexQueue_init) =
     Some ([Pushed True],
           \<lparr>queue_m = [5], alert_for_exit_m = True, not_empty_notifier_m = [],
              not_full_notifier_m = []\<rparr>) \<and>
   emplace_wait_if_full 1 2 6
       \<lparr>queue_m = [5::nat], alert_for_exit_m = True, not_empty_notifier_m = [],
          not_full_notifier_m = []\<rparr> =
     Returned False
       \<lparr>queue_m = [5], alert_for_exit_m = True, not_empty_notifier_m = [],
          not_full_notifier_m = []\<rparr> \<and>
   emplace_wait_if_full 2 2 6
       \<lparr>queue_m = [5::nat], alert_for_exit_m = True, not_empty_notifier_m = [],
          not_full_notifier_m = []\<rparr> =
     Returned True
       \<lparr>queue_m = [5, 6], alert_for_exit_m = True, not_empty_notifier_m = [],
          not_full_notifier_m = []\<rparr>"
proof -
  let ?s = "\<lparr>queue_m = [5::nat], alert_for_exit_m = True, not_empty_notifier_m = [],
              not_full_notifier_m = []\<rparr>"
  have r1: "run 1 [(1, Emplace_wait_if_full (5::nat))] (alert_for_exit MutexQueue_init) =
      Some ([Pushed True], ?s)"
    by (simp add: queue_ops MutexQueue_init_def)
  have r2: "run 2 [(1, Emplace_wait_if_full (5::nat))] (alert_for_exit MutexQueue_init) =
      Some ([Pushed True], ?s)"
    by (simp add: queue_ops MutexQueue_init_def)
  show ?thesis
    using r1 emplace_wait_if_full_after_alert [OF r1, of 2 6]
      emplace_wait_if_full_after_alert [OF r2, of 2 6]
    by (simp add: is_full_def)
qed

section \<open>The blocking pop after the alert\<close>

lemma step_no_push:
  assumes "\<not> is_push (snd c)" "queue_m s = []" "alert_for_exit_m s"
  shows "\<exists>r s'. step k c s = Some (r, s') \<and> queue_m s' = [] \<and> alert_for_exit_m s' \<and>
           ((\<exists>v. r = Popped False v) \<or> r = Done)"
  using assms by (cases c; cases "snd c") (auto simp: queue_ops)

lemma run_no_push:
  assumes "\<forall>c \<in> set cs. \<not> is_push (snd c)" "queue_m s = []" "alert_for_exit_m s"
  shows "\<exists>rs s'. run k cs s = Some (rs, s') \<and> queue_m s' = [] \<and>
           (\<forall>r \<in> set rs. (\<exists>v. r = Popped False v) \<or> r = Done)"
  using assms
proof (induction cs arbitrary: s)
  case Nil
  then show ?case by simp
next
  case (Cons c cs)
  then have "\<not> is_push (snd c)" by simp
  from step_no_push [OF this Cons.prems(2,3), of k] obtain r s1 where
    st: "step k c s = Some (r, s1)" and s1: "queue_m s1 = []" "alert_for_exit_m s1" and
    r: "(\<exists>v. r = Popped False v) \<or> r = Done" by blast
  from Cons.IH [OF _ s1] Cons.prems(1) obtain rs s2 where
    "run k cs s1 = Some (rs, s2)" "queue_m s2 = []"
    "\<forall>r \<in> set rs. (\<exists>v. r = Popped False v) \<or> r = Done" by auto
  with st r show ?case by auto
qed

text \<open>
  C3, as the code has it. After the alert an emptied queue can be filled again, so a pop
  that returned \<^verbatim>\<open>false\<close> can be followed by one that returns an element: the claim
  that every later pop returns \<^verbatim>\<open>false\<close> is false.
\<close>

theorem pop_after_alert_counterexample:
  "run 1 [(1, Alert_for_exit), (2, Pop_wait_if_empty (Some 0)),
          (1, Emplace_wait_if_full (5::nat)), (2, Pop_wait_if_empty (Some 0))]
       MutexQueue_init =
     Some ([Done, Popped False (Some 0), Pushed True, Popped True (Some 5)],
           \<lparr>queue_m = [], alert_for_exit_m = True, not_empty_notifier_m = [],
              not_full_notifier_m = []\<rparr>)"
  by (simp add: queue_ops MutexQueue_init_def)

text \<open>
  C3, amended. Once \<^verbatim>\<open>alert_for_exit\<close> has been called, whatever calls follow it, a
  call of \<^verbatim>\<open>pop_wait_if_empty\<close> never suspends: it removes and returns the head when
  the queue holds an element and returns \<^verbatim>\<open>false\<close> exactly when the queue is empty.
  From an empty queue every further pop returns \<^verbatim>\<open>false\<close> for as long as no push is
  made.
\<close>

theorem pop_wait_if_empty_after_alert:
  assumes "run kMaxSize cs (alert_for_exit s0) = Some (rs, s)"
  shows "pop_wait_if_empty t val s =
           (if queue_m s = [] then Returned (False, val) s
            else Returned (True, (case val of None \<Rightarrow> None | Some _ \<Rightarrow> Some (hd (queue_m s))))
                   (s\<lparr>queue_m := tl (queue_m s), not_full_notifier_m := []\<rparr>)) \<and>
         (queue_m s = [] \<and> (\<forall>c \<in> set cs'. \<not> is_push (snd c)) \<longrightarrow>
            (\<exists>rs' s'. run kMaxSize cs' s = Some (rs', s') \<and> queue_m s' = [] \<and>
               (\<forall>r \<in> set rs'. (\<exists>v. r = Popped False v) \<or> r = Done)))"
proof -
  have "alert_for_exit_m (alert_for_exit s0)" by (simp add: alert_for_exit_def)
  from run_alert [OF assms this] have al: "alert_for_exit_m s" .
  then have "pop_wait_if_empty t val s =
           (if queue_m s = [] then Returned (False, val) s
            else Returned (True, (case val of None \<Rightarrow> None | Some _ \<Rightarrow> Some (hd (queue_m s))))
                   (s\<lparr>queue_m := tl (queue_m s), not_full_notifier_m := []\<rparr>))"
    by (simp add: pop_wait_if_empty_def is_empty_def)
  moreover from al run_no_push [of cs' s kMaxSize]
  have "queue_m s = [] \<and> (\<forall>c \<in> set cs'. \<not> is_push (snd c)) \<longrightarrow>
            (\<exists>rs' s'. run kMaxSize cs' s = Some (rs', s') \<and> queue_m s' = [] \<and>
               (\<forall>r \<in> set rs'. (\<exists>v. r = Popped False v) \<or> r = Done))"
    by blast
  ultimately show ?thesis by blast
qed

theorem pop_wait_if_empty_after_alert_witness:
  "run 2 [(1, Emplace_wait_if_full 20)] (alert_for_exit (MutexQueue_init\<lparr>queue_m := [10::nat]\<rparr>)) =
     Some ([Pushed True], alert_for_exit (MutexQueue_init\<lparr>queue_m := [10, 20]\<rparr>)) \<and>
   run 2 [(2, Pop_wait_if_empty (Some 0)), (2, Pop_wait_if_empty None),
          (2, Pop_wait_if_empty (Some 0)), (3, Pop_if_not_empty (Some 0)),
          (2, Pop_wait_if_empty (Some 0))]
       (alert_for_exit (MutexQueue_init\<lparr>queue_m := [10::nat, 20]\<rparr>)) =
     Some ([Popped True (Some 10), Popped True None, Popped False (Some 0),
            Popped False (Some 0), Popped False (Some 0)],
           alert_for_exit MutexQueue_init)"
proof -
  let ?s = "alert_for_exit (MutexQueue_init\<lparr>queue_m := [10::nat, 20]\<rparr>)"
  have r: "run 2 [(1, Emplace_wait_if_full 20)]
             (alert_for_exit (MutexQueue_init\<lparr>queue_m := [10::nat]\<rparr>)) = Some ([Pushed True], ?s)"
    by (simp add: queue_ops MutexQueue_init_def)
  show ?thesis
    using r pop_wait_if_empty_after_alert [OF r, of 2 "Some 0" "[]"]
    by (simp add: queue_ops MutexQueue_init_def)
qed

section \<open>The alert and suspended producers\<close>

text \<open>
  C2, at the code. A producer that \<^verbatim>\<open>emplace_wait_if_full\<close> suspended (the queue being
  full) is on the wait list of \<^verbatim>\<open>not_full_notifier_\<close>. \<^verbatim>\<open>alert_for_exit\<close> notifies
  the waiters of \<^verbatim>\<open>not_empty_notifier_\<close> only: the wait list of
  \<^verbatim>\<open>not_full_notifier_\<close> is the same after the call, the producer still on it,
  although its wait predicate now holds and a re-evaluation would make it return
  \<^verbatim>\<open>false\<close>.
\<close>

theorem alert_for_exit_leaves_producer_waiting:
  assumes "emplace_wait_if_full kMaxSize t x s = Suspended s1"
  shows "is_full kMaxSize s \<and> t \<in> set (not_full_notifier_m s1) \<and>
         not_full_notifier_m (alert_for_exit s1) = not_full_notifier_m s1 \<and>
         not_empty_notifier_m (alert_for_exit s1) = [] \<and>
         emplace_wait_if_full kMaxSize t x (alert_for_exit s1) =
           Returned False (alert_for_exit s1)"
  using assms by (auto simp: queue_ops split: if_splits)

theorem alert_for_exit_leaves_producer_waiting_witness:
  "emplace_wait_if_full 1 7 20 (MutexQueue_init\<lparr>queue_m := [10::nat]\<rparr>) =
     Suspended (MutexQueue_init\<lparr>queue_m := [10], not_full_notifier_m := [7]\<rparr>) \<and>
   alert_for_exit (MutexQueue_init\<lparr>queue_m := [10::nat], not_full_notifier_m := [7]\<rparr>) =
     \<lparr>queue_m = [10], alert_for_exit_m = True, not_empty_notifier_m = [],
        not_full_notifier_m = [7]\<rparr>"
proof -
  have h: "emplace_wait_if_full 1 7 20 (MutexQueue_init\<lparr>queue_m := [10::nat]\<rparr>) =
     Suspended (MutexQueue_init\<lparr>queue_m := [10], not_full_notifier_m := [7]\<rparr>)"
    by (simp add: queue_ops MutexQueue_init_def)
  show ?thesis
    using h alert_for_exit_leaves_producer_waiting [OF h]
    by (simp add: queue_ops MutexQueue_init_def)
qed

section \<open>The overwriting push\<close>

lemma run_overwrite:
  assumes "0 < k"
  shows "run k (map (\<lambda>x. (t, Emplace_overwrite_oldest x)) xs) s =
           Some (replicate (length xs) Done,
                 s\<lparr>queue_m := (if xs = [] then queue_m s
                               else drop (length (queue_m s @ xs) - k) (queue_m s @ xs)),
                   not_empty_notifier_m :=
                     (if xs = [] then not_empty_notifier_m s else [])\<rparr>)"
proof (induction xs arbitrary: s)
  case Nil
  then show ?case by simp
next
  case (Cons x xs)
  let ?s1 = "s\<lparr>queue_m := drop (Suc (length (queue_m s)) - k) (queue_m s) @ [x],
               not_empty_notifier_m := []\<rparr>"
  have "drop (length (queue_m ?s1 @ xs) - k) (queue_m ?s1 @ xs) =
        drop (length (queue_m s @ x # xs) - k) (queue_m s @ x # xs)"
    using assms by (cases "Suc (length (queue_m s)) \<le> k") (auto simp: Suc_diff_le add.commute)
  then show ?case
    using assms by (simp add: emplace_overwrite_oldest_eq Cons.IH)
qed

text \<open>
  C6. \<^verbatim>\<open>emplace_overwrite_oldest\<close> always returns (it has no wait): it removes
  elements from the head for as long as the queue is full and then appends the item at
  the tail, which on a full queue removes exactly the head. So \<^verbatim>\<open>kMaxSize + 1\<close> such
  pushes into a full queue all return and leave exactly the last \<^verbatim>\<open>kMaxSize\<close> of the
  pushed items, in the order of the pushes.
\<close>

theorem overwrite_keeps_most_recent:
  assumes "0 < kMaxSize" "length (queue_m s) = kMaxSize" "length xs = Suc kMaxSize"
  shows "emplace_overwrite_oldest kMaxSize x s0 =
           Some (s0\<lparr>queue_m := drop (Suc (length (queue_m s0)) - kMaxSize) (queue_m s0) @ [x],
                   not_empty_notifier_m := []\<rparr>) \<and>
         emplace_overwrite_oldest kMaxSize x s =
           Some (s\<lparr>queue_m := tl (queue_m s) @ [x], not_empty_notifier_m := []\<rparr>) \<and>
         run kMaxSize (map (\<lambda>x. (t, Emplace_overwrite_oldest x)) xs) s =
           Some (replicate (Suc kMaxSize) Done,
                 s\<lparr>queue_m := tl xs, not_empty_notifier_m := []\<rparr>)"
proof -
  have "emplace_overwrite_oldest kMaxSize x s =
           Some (s\<lparr>queue_m := tl (queue_m s) @ [x], not_empty_notifier_m := []\<rparr>)"
    using assms(1,2) by (simp add: emplace_overwrite_oldest_eq drop_Suc)
  moreover have "xs \<noteq> []" using assms(3) by auto
  then have "run kMaxSize (map (\<lambda>x. (t, Emplace_overwrite_oldest x)) xs) s =
           Some (replicate (Suc kMaxSize) Done,
                 s\<lparr>queue_m := tl xs, not_empty_notifier_m := []\<rparr>)"
    using assms by (simp add: run_overwrite drop_Suc)
  ultimately show ?thesis
    using emplace_overwrite_oldest_eq [OF assms(1), of x s0] by blast
qed

theorem overwrite_keeps_most_recent_witness:
  "emplace_overwrite_oldest 2 30 (MutexQueue_init\<lparr>queue_m := [10::nat]\<rparr>) =
     Some (MutexQueue_init\<lparr>queue_m := [10, 30]\<rparr>) \<and>
   emplace_overwrite_oldest 2 30 (MutexQueue_init\<lparr>queue_m := [10::nat, 20]\<rparr>) =
     Some (MutexQueue_init\<lparr>queue_m := [20, 30]\<rparr>) \<and>
   run 2 [(1, Emplace_overwrite_oldest 30), (1, Emplace_overwrite_oldest 40),
          (1, Emplace_overwrite_oldest 50)] (MutexQueue_init\<lparr>queue_m := [10::nat, 20]\<rparr>) =
     Some ([Done, Done, Done], MutexQueue_init\<lparr>queue_m := [40, 50]\<rparr>)"
proof -
  have h: "0 < (2::nat)" "length (queue_m (MutexQueue_init\<lparr>queue_m := [10::nat, 20]\<rparr>)) = 2"
    "length [30::nat, 40, 50] = Suc 2" by simp_all
  show ?thesis
    using overwrite_keeps_most_recent [OF h, of 30 "MutexQueue_init\<lparr>queue_m := [10::nat]\<rparr>" 1]
    by (simp add: MutexQueue_init_def emplace_overwrite_oldest_eq)
qed

section \<open>First in, first out\<close>

lemma step_fifo:
  assumes "\<not> is_overwrite (snd c)" "\<not> null_destination (snd c)"
  shows "\<exists>r s'. step k c s = Some (r, s') \<and>
           queue_m s @ pushed_items [c] [r] = popped_items [r] @ queue_m s'"
proof (cases c)
  case (Pair t a)
  show ?thesis
  proof (cases a)
    case (Emplace_wait_if_full x)
    with Pair show ?thesis by (simp add: queue_ops)
  next
    case (Emplace_overwrite_oldest x)
    with Pair assms show ?thesis by simp
  next
    case (Pop_if_not_empty val)
    with Pair assms obtain v where "val = Some v" by (cases val) auto
    with Pair Pop_if_not_empty show ?thesis
      by (cases "queue_m s") (simp_all add: queue_ops)
  next
    case (Pop_wait_if_empty val)
    with Pair assms obtain v where "val = Some v" by (cases val) auto
    with Pair Pop_wait_if_empty show ?thesis
      by (cases "queue_m s") (simp_all add: queue_ops)
  next
    case Alert_for_exit
    with Pair show ?thesis by (simp add: queue_ops)
  qed
qed

lemma pushed_items_Cons:
  "pushed_items (c # cs) (r # rs) = pushed_items [c] [r] @ pushed_items cs rs"
  by (cases "(c # cs, r # rs)" rule: pushed_items.cases) auto

lemma popped_items_Cons:
  "popped_items (r # rs) = popped_items [r] @ popped_items rs"
  by (cases "r # rs" rule: popped_items.cases) auto

lemma run_fifo:
  assumes "\<forall>c \<in> set cs. \<not> is_overwrite (snd c) \<and> \<not> null_destination (snd c)"
  shows "\<exists>rs s'. run k cs s = Some (rs, s') \<and>
           queue_m s @ pushed_items cs rs = popped_items rs @ queue_m s'"
  using assms
proof (induction cs arbitrary: s)
  case Nil
  then show ?case by simp
next
  case (Cons c cs)
  then have c: "\<not> is_overwrite (snd c)" "\<not> null_destination (snd c)" by simp_all
  from step_fifo [OF c, of k s] obtain r s1 where
    st: "step k c s = Some (r, s1)" and
    e1: "queue_m s @ pushed_items [c] [r] = popped_items [r] @ queue_m s1" by blast
  from Cons.IH [of s1] Cons.prems obtain rs s2 where
    rn: "run k cs s1 = Some (rs, s2)" and
    e2: "queue_m s1 @ pushed_items cs rs = popped_items rs @ queue_m s2" by auto
  have "queue_m s @ pushed_items (c # cs) (r # rs) =
          (queue_m s @ pushed_items [c] [r]) @ pushed_items cs rs"
    by (subst pushed_items_Cons) simp
  also have "\<dots> = popped_items [r] @ (queue_m s1 @ pushed_items cs rs)"
    by (simp add: e1)
  also have "\<dots> = popped_items (r # rs) @ queue_m s2"
    by (subst (2) popped_items_Cons) (simp add: e2)
  finally show ?case using st rn by simp
qed

text \<open>
  C7. In every sequence of calls on an empty queue that has no overwriting push and whose
  pops all pass a destination, the items that the blocking pushes enqueued are the items
  that the pops returned followed by the items still queued. So when as many pops as
  pushes have succeeded, the pops returned the pushed items in the order of the pushes.
\<close>

theorem fifo_order:
  assumes "\<forall>c \<in> set cs. \<not> is_overwrite (snd c) \<and> \<not> null_destination (snd c)"
  shows "\<exists>rs s. run kMaxSize cs MutexQueue_init = Some (rs, s) \<and>
           pushed_items cs rs = popped_items rs @ queue_m s \<and>
           (length (popped_items rs) = length (pushed_items cs rs) \<longrightarrow>
              popped_items rs = pushed_items cs rs)"
proof -
  from run_fifo [OF assms, of kMaxSize MutexQueue_init] obtain rs s where
    rn: "run kMaxSize cs MutexQueue_init = Some (rs, s)" and
    eq: "pushed_items cs rs = popped_items rs @ queue_m s"
    by (auto simp: MutexQueue_init_def)
  from eq have "length (popped_items rs) = length (pushed_items cs rs) \<longrightarrow>
      popped_items rs = pushed_items cs rs" by auto
  with rn eq show ?thesis by blast
qed

theorem fifo_order_witness:
  "run 2 [(1, Emplace_wait_if_full (10::nat)), (1, Emplace_wait_if_full 20),
          (1, Emplace_wait_if_full 30), (2, Pop_wait_if_empty (Some 0)),
          (1, Emplace_wait_if_full 30), (2, Pop_if_not_empty (Some 0)),
          (2, Pop_wait_if_empty (Some 0))] MutexQueue_init =
     Some ([Pushed True, Pushed True, Waits, Popped True (Some 10), Pushed True,
            Popped True (Some 20), Popped True (Some 30)],
           \<lparr>queue_m = [], alert_for_exit_m = False, not_empty_notifier_m = [],
              not_full_notifier_m = []\<rparr>) \<and>
   pushed_items
     [(1, Emplace_wait_if_full (10::nat)), (1, Emplace_wait_if_full 20),
      (1, Emplace_wait_if_full 30), (2, Pop_wait_if_empty (Some 0)),
      (1, Emplace_wait_if_full 30), (2, Pop_if_not_empty (Some 0)),
      (2, Pop_wait_if_empty (Some 0))]
     [Pushed True, Pushed True, Waits, Popped True (Some 10), Pushed True,
      Popped True (Some 20), Popped True (Some 30)] = [10, 20, 30] \<and>
   popped_items [Pushed True, Pushed True, Waits, Popped True (Some 10), Pushed True,
            Popped True (Some 20), Popped True (Some 30)] = [10::nat, 20, 30]"
proof -
  let ?cs = "[(1, Emplace_wait_if_full (10::nat)), (1, Emplace_wait_if_full 20),
          (1, Emplace_wait_if_full 30), (2, Pop_wait_if_empty (Some 0)),
          (1, Emplace_wait_if_full 30), (2, Pop_if_not_empty (Some 0)),
          (2, Pop_wait_if_empty (Some 0))]"
  have h: "\<forall>c \<in> set ?cs. \<not> is_overwrite (snd c) \<and> \<not> null_destination (snd c)"
    by simp
  show ?thesis
    using fifo_order [OF h, of 2]
    by (simp add: queue_ops MutexQueue_init_def)
qed

section \<open>The pool: what every reachable state satisfies\<close>

lemma invoke_Task:
  "task \<noteq> NoState \<Longrightarrow> \<exists>sh'. invoke task sh = Some sh'"
  by (cases "(task, sh)" rule: invoke.cases) auto

lemma pool_step_destroyed: "destroyed p \<Longrightarrow> pool_step c p = p"
  by (simp add: pool_step_def)

lemma pool_step_Enqueue:
  "\<not> destroyed p \<Longrightarrow>
   pool_step (Enqueue t h fn) p =
     (case enqueue t h fn p of Suspended p' \<Rightarrow> p' | Returned x p' \<Rightarrow> p')"
  by (simp add: pool_step_def)

lemma pool_step_Thread_task:
  "\<not> destroyed p \<Longrightarrow> pool_step (Thread_task w) p = thread_task w p"
  by (simp add: pool_step_def)

lemma pool_step_Dtor:
  "\<not> destroyed p \<Longrightarrow>
   pool_step Dtor p =
     (case ThreadPool_dtor p of Suspended p' \<Rightarrow> p' | Returned x p' \<Rightarrow> p')"
  by (simp add: pool_step_def)

lemma enqueue_inv:
  "pool_inv p \<Longrightarrow>
   pool_inv (case enqueue t h fn p of Suspended p' \<Rightarrow> p' | Returned x p' \<Rightarrow> p')"
  by (auto simp: pool_inv_def enqueue_def emplace_wait_if_full_def is_full_def
      split: outcome.splits if_splits)

lemma set_update_Exited:
  "Aborted \<notin> set xs \<Longrightarrow> Aborted \<notin> set (xs[w := Exited])"
  using set_update_subset_insert [of xs w Exited] by auto

lemma thread_task_inv:
  assumes "pool_inv p"
  shows "pool_inv (thread_task w p)"
proof (cases "w < length (thread_pool_m p) \<and> thread_pool_m p ! w = Running")
  case False
  with assms show ?thesis by (auto simp: thread_task_def)
next
  case True
  show ?thesis
  proof (cases "queue_m (task_queue_m p)")
    case Nil
    with True assms show ?thesis
      by (auto simp: thread_task_def pop_wait_if_empty_def is_empty_def pool_inv_def
          set_update_Exited)
  next
    case (Cons task q)
    with assms have "task \<noteq> NoState" by (auto simp: pool_inv_def)
    from invoke_Task [OF this] obtain sh where "invoke task (shared_states p) = Some sh"
      by blast
    with True Cons assms show ?thesis
      by (auto simp: thread_task_def pop_wait_if_empty_def is_empty_def pool_inv_def)
  qed
qed

lemma dtor_inv:
  "pool_inv p \<Longrightarrow>
   pool_inv (case ThreadPool_dtor p of Suspended p' \<Rightarrow> p' | Returned x p' \<Rightarrow> p')"
  by (auto simp: pool_inv_def ThreadPool_dtor_def alert_for_exit_def Let_def)

lemma pool_step_inv:
  assumes "pool_inv p"
  shows "pool_inv (pool_step c p)"
proof (cases "destroyed p")
  case True
  with assms show ?thesis by (simp add: pool_step_destroyed)
next
  case False
  show ?thesis
  proof (cases c)
    case (Enqueue t h fn)
    with False enqueue_inv [OF assms, of t h fn] show ?thesis
      by (simp add: pool_step_Enqueue)
  next
    case (Thread_task w)
    with False thread_task_inv [OF assms, of w] show ?thesis
      by (simp add: pool_step_Thread_task)
  next
    case Dtor
    with False dtor_inv [OF assms] show ?thesis
      by (simp add: pool_step_Dtor)
  qed
qed

lemma pool_run_inv: "pool_inv p \<Longrightarrow> pool_inv (pool_run cs p)"
  by (induction cs arbitrary: p) (simp_all add: pool_step_inv)

lemma pool_init_inv: "pool_inv (ThreadPool_init n)"
  by (simp add: pool_inv_def ThreadPool_init_def MutexQueue_init_def)

lemma pool_run_append: "pool_run (cs @ ds) p = pool_run ds (pool_run cs p)"
  by (induction cs arbitrary: p) simp_all

lemma pool_run_enqueues:
  "m \<le> task_queue_kMaxSize \<Longrightarrow>
   pool_run (replicate m (Enqueue t h fn)) (ThreadPool_init n) =
     (ThreadPool_init n)
       \<lparr>task_queue_m := MutexQueue_init\<lparr>queue_m := replicate m (Task h fn)\<rparr>,
        shared_states := (if m = 0 then (\<lambda>h. None) else [h \<mapsto> NotReady])\<rparr>"
proof (induction m)
  case 0
  then show ?case by (simp add: ThreadPool_init_def MutexQueue_init_def)
next
  case (Suc m)
  then have m: "m < task_queue_kMaxSize" by simp
  have "replicate (Suc m) (Enqueue t h fn) = replicate m (Enqueue t h fn) @ [Enqueue t h fn]"
    by (simp add: replicate_append_same)
  then have "pool_run (replicate (Suc m) (Enqueue t h fn)) (ThreadPool_init n) =
      pool_step (Enqueue t h fn) (pool_run (replicate m (Enqueue t h fn)) (ThreadPool_init n))"
    by (simp only: pool_run_append pool_run.simps)
  also have "\<dots> = (ThreadPool_init n)
       \<lparr>task_queue_m := MutexQueue_init\<lparr>queue_m := replicate (Suc m) (Task h fn)\<rparr>,
        shared_states := [h \<mapsto> NotReady]\<rparr>"
    using m Suc.IH
    by (simp add: pool_step_def enqueue_def emplace_wait_if_full_def is_full_def
        ThreadPool_init_def MutexQueue_init_def replicate_append_same)
  finally show ?case by (simp only: nat.distinct if_False)
qed

section \<open>The capacity of the task queue\<close>

text \<open>
  C10. The task queue of a pool has capacity 128 whatever the number of workers: in
  every state that a pool reaches, at most 128 tasks are queued, and a call of
  \<^verbatim>\<open>enqueue\<close> suspends the calling thread exactly when 128 tasks are queued and the
  queue has not been alerted.
\<close>

theorem task_queue_capacity:
  "task_queue_kMaxSize = 128 \<and>
   size_mq (task_queue_m (pool_run cs (ThreadPool_init max_thread_number))) \<le> 128 \<and>
   ((\<exists>p'. enqueue t h fn (pool_run cs (ThreadPool_init max_thread_number)) = Suspended p') =
    (size_mq (task_queue_m (pool_run cs (ThreadPool_init max_thread_number))) = 128 \<and>
     \<not> is_alert (task_queue_m (pool_run cs (ThreadPool_init max_thread_number)))))"
proof -
  let ?p = "pool_run cs (ThreadPool_init max_thread_number) :: ('a, 'b) ThreadPool"
  have "pool_inv ?p" by (simp add: pool_run_inv pool_init_inv)
  then have le: "length (queue_m (task_queue_m ?p)) \<le> 128"
    by (simp add: pool_inv_def task_queue_kMaxSize_def)
  then have "(\<exists>p'. enqueue t h fn ?p = Suspended p') =
    (size_mq (task_queue_m ?p) = 128 \<and> \<not> is_alert (task_queue_m ?p))"
    by (auto simp: enqueue_def emplace_wait_if_full_def is_full_def size_mq_def is_alert_def
        task_queue_kMaxSize_def split: outcome.splits)
  with le show ?thesis by (simp add: size_mq_def task_queue_kMaxSize_def)
qed

theorem task_queue_capacity_witness:
  "size_mq (task_queue_m (pool_run (replicate 128 (Enqueue 9 0 (Inr (1::nat))))
      (ThreadPool_init 4 :: (nat, nat) ThreadPool))) = 128 \<and>
   (\<exists>p'. enqueue 9 0 (Inr 1) (pool_run (replicate 128 (Enqueue 9 0 (Inr (1::nat))))
      (ThreadPool_init 4 :: (nat, nat) ThreadPool)) = Suspended p')"
proof -
  have le: "128 \<le> task_queue_kMaxSize" by (simp add: task_queue_kMaxSize_def)
  have sz: "size_mq (task_queue_m (pool_run (replicate 128 (Enqueue 9 0 (Inr (1::nat))))
      (ThreadPool_init 4 :: (nat, nat) ThreadPool))) = 128"
    by (simp add: pool_run_enqueues [OF le] size_mq_def)
  have al: "\<not> is_alert (task_queue_m (pool_run (replicate 128 (Enqueue 9 0 (Inr (1::nat))))
      (ThreadPool_init 4 :: (nat, nat) ThreadPool)))"
    by (simp add: pool_run_enqueues [OF le] is_alert_def MutexQueue_init_def)
  show ?thesis
    using sz al
      task_queue_capacity [of "replicate 128 (Enqueue 9 0 (Inr (1::nat)))" 4 9 0 "Inr 1"]
    by blast
qed

section \<open>Errors of a task body\<close>















end
